theory Spec2Isabelle
  imports Main "HOL-Library.List_Lexorder"
begin

section \<open>Strings of the program\<close>

text \<open>
  A Python \<open>str\<close> is a sequence of Unicode code points; \<open>len\<close>, slicing and
  \<open>strip\<close> count code points. A string is therefore a list of code points, each a
  natural number. \<open>ascii\<close> turns an ASCII literal of the source into such a list.
\<close>

type_synonym pystr = "nat list"

definition ascii :: "string \<Rightarrow> pystr" where
  "ascii s = map of_char s"

text \<open>
  \<open>str.isspace\<close> of one code point, which is what \<open>str.strip()\<close> without an argument
  removes at both ends: the Unicode white space characters.
\<close>

definition py_isspace :: "nat \<Rightarrow> bool" where
  "py_isspace c \<longleftrightarrow>
     (9 \<le> c \<and> c \<le> 13) \<or> (28 \<le> c \<and> c \<le> 32) \<or> c = 133 \<or> c = 160 \<or> c = 5760 \<or>
     (8192 \<le> c \<and> c \<le> 8202) \<or> c = 8232 \<or> c = 8233 \<or> c = 8239 \<or> c = 8287 \<or> c = 12288"

definition py_strip :: "pystr \<Rightarrow> pystr" where
  "py_strip s = rev (dropWhile py_isspace (rev (dropWhile py_isspace s)))"

text \<open>\<open>s.replace("\r\n", "\n")\<close>: every occurrence, left to right, not overlapping.\<close>

fun replace_crlf :: "pystr \<Rightarrow> pystr" where
  "replace_crlf (x # y # xs) =
     (if x = 13 \<and> y = 10 then 10 # replace_crlf xs else x # replace_crlf (y # xs))"
| "replace_crlf xs = xs"

text \<open>
  \<open>xs[i:j]\<close> for integers \<open>i\<close> and \<open>j\<close>: a negative index counts from the end, both
  are clamped to the sequence, and an empty range gives the empty sequence.
\<close>

definition py_slice :: "'a list \<Rightarrow> int \<Rightarrow> int \<Rightarrow> 'a list" where
  "py_slice xs i j =
     (let n = int (length xs);
          lo = (if i < 0 then max 0 (i + n) else min i n);
          hi = (if j < 0 then max 0 (j + n) else min j n)
      in take (nat (hi - lo)) (drop (nat lo) xs))"

text \<open>
  The exceptions that leave a function of the program: one that is not of class
  \<open>Exception\<close> (\<open>KeyboardInterrupt\<close>, \<open>SystemExit\<close>) and so passes an
  \<open>except Exception\<close>, the \<open>IndexError\<close> of an index out of range, and an
  exception raised inside an external reader of files.
\<close>

datatype error = BaseException | IndexError | ReaderError

section \<open>Chunker\<close>

text \<open>
  \<open>chunk_text\<close> of \<open>app.py\<close>. The \<open>while\<close> loop has no bound on its number of
  iterations, so it is a partial function: \<open>None\<close> is the loop that never ends. The loop
  state is the list \<open>chunks\<close>; next to it the model keeps a trace of the windows
  \<open>(start, end)\<close> of the iterations, which the source does not store and which no
  branch reads. The argument is a \<open>str\<close>, on which \<open>text or ""\<close> changes nothing.
\<close>

partial_function (option) chunk_loop ::
  "pystr \<Rightarrow> int \<Rightarrow> int \<Rightarrow> int \<Rightarrow> pystr list \<times> (int \<times> int) list
     \<Rightarrow> (pystr list \<times> (int \<times> int) list) option" where
  "chunk_loop text chunk_size overlap start st =
     (let n = int (length text) in
      if start < n then
        (let end = min (start + chunk_size) n;
             st' = (fst st @ [py_slice text start end], snd st @ [(start, end)])
         in if end = n then Some st'
            else chunk_loop text chunk_size overlap (max 0 (end - overlap)) st')
      else Some st)"

declare chunk_loop.simps [code]

definition normalise :: "pystr \<Rightarrow> pystr" where
  "normalise t = py_strip (replace_crlf t)"

definition chunk_run :: "pystr \<Rightarrow> int \<Rightarrow> int \<Rightarrow> (pystr list \<times> (int \<times> int) list) option" where
  "chunk_run t chunk_size overlap =
     (let text = normalise t in
      if text = [] then Some ([], [])
      else chunk_loop text chunk_size overlap 0 ([], []))"

definition chunk_text :: "pystr \<Rightarrow> int \<Rightarrow> int \<Rightarrow> pystr list option" where
  "chunk_text t chunk_size overlap = map_option fst (chunk_run t chunk_size overlap)"

definition chunk_windows :: "pystr \<Rightarrow> int \<Rightarrow> int \<Rightarrow> (int \<times> int) list option" where
  "chunk_windows t chunk_size overlap = map_option snd (chunk_run t chunk_size overlap)"

text \<open>
  Putting the chunks together again: the first chunk whole, every later chunk without
  its first \<open>overlap\<close> characters.
\<close>

fun reconstruct :: "int \<Rightarrow> pystr list \<Rightarrow> pystr" where
  "reconstruct overlap [] = []"
| "reconstruct overlap (c # cs) = c @ concat (map (drop (nat overlap)) cs)"

section \<open>ScriptDetector\<close>

text \<open>
  \<open>_has_cjk\<close> and \<open>_has_latin\<close>: \<open>re.search\<close> with a character class finds a match
  exactly when some code point of the text lies in the class, U+4E00 to U+9FFF
  (19968 to 40959) for the first, \<open>A-Z\<close> and \<open>a-z\<close> for the second.
\<close>

definition has_cjk :: "pystr \<Rightarrow> bool" where
  "has_cjk text = list_ex (\<lambda>c. 19968 \<le> c \<and> c \<le> 40959) text"

definition has_latin :: "pystr \<Rightarrow> bool" where
  "has_latin text = list_ex (\<lambda>c. (65 \<le> c \<and> c \<le> 90) \<or> (97 \<le> c \<and> c \<le> 122)) text"

section \<open>TranslationGate\<close>

text \<open>
  A translation provider is an external pipeline. Called with the text and
  \<open>max_length\<close>, the expression \<open>f(text, max_length=512)[0]["translation_text"]\<close>
  yields a string, or raises an exception of class \<open>Exception\<close>, or raises one that is
  not of that class. The \<open>except Exception\<close> of the source handles the second and lets
  the third leave \<open>translate_text\<close>. \<open>get_translators\<close> gives the pair of providers,
  \<open>None\<close> for one that is not available; the pair is a parameter here. To tell whether
  a provider was invoked, \<open>translate_text\<close> gives, next to its result, the log of the
  provider calls it made.
\<close>

datatype outcome = Returns pystr | Raises | RaisesBase

type_synonym provider = "pystr \<Rightarrow> int \<Rightarrow> outcome"

datatype direction = ZhEn | EnZh

type_synonym call = "direction \<times> pystr \<times> outcome"

definition invoke :: "direction \<Rightarrow> provider \<Rightarrow> pystr \<Rightarrow> (error + pystr) \<times> call list" where
  "invoke d f text =
     (case f text 512 of
        Returns r \<Rightarrow> (Inr r, [(d, text, Returns r)])
      | Raises \<Rightarrow> (Inr text, [(d, text, Raises)])
      | RaisesBase \<Rightarrow> (Inl BaseException, [(d, text, RaisesBase)]))"

definition translate_text ::
  "provider option \<times> provider option \<Rightarrow> pystr \<Rightarrow> pystr \<Rightarrow> (error + pystr) \<times> call list" where
  "translate_text translators t target_lang =
     (let zh2en = fst translators; en2zh = snd translators;
          text = py_strip t
      in if text = [] then (Inr text, [])
         else
           let cjk = has_cjk text; latin = has_latin text
           in if target_lang = ascii ''en'' then
                (if \<not> cjk \<or> latin then (Inr text, [])
                 else case zh2en of None \<Rightarrow> (Inr text, []) | Some f \<Rightarrow> invoke ZhEn f text)
              else if target_lang = ascii ''zh'' then
                (if \<not> latin \<or> cjk then (Inr text, [])
                 else case en2zh of None \<Rightarrow> (Inr text, []) | Some f \<Rightarrow> invoke EnZh f text)
              else (Inr text, []))"

text \<open>
  A run translated when a provider call of its log returned; an exception escaped from it
  when a call of its log raised one that is not of class \<open>Exception\<close>.
\<close>

fun translated :: "call list \<Rightarrow> bool" where
  "translated [] = False"
| "translated ((d, s, Returns r) # cs) = True"
| "translated ((d, s, Raises) # cs) = translated cs"
| "translated ((d, s, RaisesBase) # cs) = translated cs"


text \<open>Whether the log holds a call in the given direction.\<close>

definition invoked :: "direction \<Rightarrow> call list \<Rightarrow> bool" where
  "invoked d calls = list_ex (\<lambda>c. fst c = d) calls"

text \<open>
  Three providers: one that answers \<open>hello\<close> to every text, one whose every call raises
  an \<open>Exception\<close>, as a pipeline whose model fails does, and one whose every call is
  interrupted (\<open>KeyboardInterrupt\<close>).
\<close>

definition fixed_provider :: provider where
  "fixed_provider s max_length = Returns (ascii ''hello'')"

definition raising_provider :: provider where
  "raising_provider s max_length = Raises"


section \<open>Retriever\<close>

text \<open>
  The store is external: \<open>col.query\<close> is a parameter that maps the question and
  \<open>n_results\<close> to the response, a dictionary whose keys \<open>documents\<close> and
  \<open>metadatas\<close> are absent or hold one row per query text. A document is a string or
  \<open>None\<close>, a metadata entry a dictionary or \<open>None\<close>. \<open>res.get(key, [[]])[0]\<close>
  is the first row, the empty row for an absent key, and an \<open>IndexError\<close> when there
  is no row.
\<close>

datatype pyval = PyStr pystr | PyInt int

type_synonym metadata = "(pystr \<times> pyval) list"

record response =
  res_documents :: "pystr option list list option"
  res_metadatas :: "metadata option list list option"

definition first_row :: "'a list list option \<Rightarrow> error + 'a list" where
  "first_row v =
     (case v of None \<Rightarrow> Inr [] | Some [] \<Rightarrow> Inl IndexError | Some (r # rs) \<Rightarrow> Inr r)"

text \<open>Python truth of a string or dictionary that may be \<open>None\<close>.\<close>

definition truthy :: "'a list option \<Rightarrow> bool" where
  "truthy v = (case v of None \<Rightarrow> False | Some xs \<Rightarrow> xs \<noteq> [])"

fun retrieve_loop ::
  "(pystr option \<times> metadata option) list \<Rightarrow> (pystr option \<times> metadata option) list
     \<Rightarrow> (pystr option \<times> metadata option) list" where
  "retrieve_loop [] out = out"
| "retrieve_loop ((d, m) # rest) out =
     retrieve_loop rest (if truthy d \<and> truthy m then out @ [(d, m)] else out)"

definition retrieve ::
  "(pystr \<Rightarrow> int \<Rightarrow> response) \<Rightarrow> pystr \<Rightarrow> int
     \<Rightarrow> error + (pystr option \<times> metadata option) list" where
  "retrieve query question top_k =
     (let res = query question top_k
      in case first_row (res_documents res) of
           Inl e \<Rightarrow> Inl e
         | Inr docs \<Rightarrow>
             (case first_row (res_metadatas res) of
                Inl e \<Rightarrow> Inl e
              | Inr metas \<Rightarrow> Inr (retrieve_loop (zip docs metas) [])))"

text \<open>A store that answers every query with the same three hits, one without a document.\<close>

definition two_hit_store :: "pystr \<Rightarrow> int \<Rightarrow> response" where
  "two_hit_store question n_results =
     \<lparr>res_documents = Some [[Some (ascii ''a''), None, Some (ascii ''b'')]],
      res_metadatas = Some [[Some [(ascii ''page'', PyInt 0)], Some [(ascii ''page'', PyInt 1)],
                             Some [(ascii ''page'', PyInt 2)]]]\<rparr>"

section \<open>DocumentLoader\<close>

text \<open>
  A directory is the list of the entries that \<open>docs_dir.glob("*")\<close> yields, in any
  order. An entry has its name, whether it is a regular file, and what each external
  reader does on it: \<open>read_text\<close>, the \<open>extract_text()\<close> of each page of
  \<open>PdfReader\<close>, and the \<open>text\<close> of each paragraph of \<open>Document\<close>. A reader gives
  its value or raises (a file that cannot be opened or parsed); the source handles no
  exception of a reader, so it leaves \<open>iter_docs\<close>.
\<close>

record entry =
  name :: pystr
  is_file :: bool
  file_text :: "error + pystr"
  pdf_page_texts :: "error + pystr option list"
  docx_paragraphs :: "error + pystr option list"

record page =
  page_text :: pystr
  page_no :: int

record document =
  filename :: pystr
  filetype :: pystr
  pages :: "page list"

text \<open>\<open>str.rfind\<close> of one character: the highest index where it occurs, or \<open>-1\<close>.\<close>

fun py_rfind :: "nat \<Rightarrow> pystr \<Rightarrow> int" where
  "py_rfind c [] = - 1"
| "py_rfind c (x # xs) =
     (let r = py_rfind c xs in if 0 \<le> r then r + 1 else if x = c then 0 else - 1)"

text \<open>
  \<open>PurePath.suffix\<close>: the part of the name from its last dot on, when that dot is
  neither the first nor the last character; otherwise the empty string.
\<close>

definition suffix :: "pystr \<Rightarrow> pystr" where
  "suffix nm =
     (let i = py_rfind 46 nm
      in if 0 < i \<and> i < int (length nm) - 1 then py_slice nm i (int (length nm)) else [])"

text \<open>
  \<open>str.lower\<close> on the letters \<open>A-Z\<close>. Code points outside ASCII are left as they
  are; none of them lowers to a character of \<open>.txt\<close>, \<open>.pdf\<close> or \<open>.docx\<close>.
\<close>

definition py_lower :: "pystr \<Rightarrow> pystr" where
  "py_lower s = map (\<lambda>c. if 65 \<le> c \<and> c \<le> 90 then c + 32 else c) s"

fun py_join :: "pystr \<Rightarrow> pystr list \<Rightarrow> pystr" where
  "py_join sep [] = []"
| "py_join sep [x] = x"
| "py_join sep (x # y # ys) = x @ sep @ py_join sep (y # ys)"

definition read_txt :: "entry \<Rightarrow> error + pystr" where
  "read_txt p = file_text p"

definition read_pdf :: "entry \<Rightarrow> error + page list" where
  "read_pdf p =
     (case pdf_page_texts p of
        Inl e \<Rightarrow> Inl e
      | Inr ts \<Rightarrow>
          Inr (map (\<lambda>(i, t). \<lparr>page_text = (case t of None \<Rightarrow> [] | Some s \<Rightarrow> s), page_no = int i\<rparr>)
                 (enumerate 0 ts)))"

definition read_docx :: "entry \<Rightarrow> error + page list" where
  "read_docx p =
     (case docx_paragraphs p of
        Inl e \<Rightarrow> Inl e
      | Inr ps \<Rightarrow> Inr [\<lparr>page_text = py_join [10] [s. Some s \<leftarrow> ps], page_no = 0\<rparr>])"

fun iter_docs_loop :: "entry list \<Rightarrow> document list \<Rightarrow> error + document list" where
  "iter_docs_loop [] items = Inr items"
| "iter_docs_loop (p # ps) items =
     (if \<not> is_file p then iter_docs_loop ps items
      else
        let sfx = py_lower (suffix (name p))
        in if sfx = ascii ''.txt'' then
             (case read_txt p of
                Inl e \<Rightarrow> Inl e
              | Inr t \<Rightarrow>
                  iter_docs_loop ps (items @
                    [\<lparr>filename = name p, filetype = ascii ''text'',
                      pages = [\<lparr>page_text = t, page_no = 0\<rparr>]\<rparr>]))
           else if sfx = ascii ''.pdf'' then
             (case read_pdf p of
                Inl e \<Rightarrow> Inl e
              | Inr pgs \<Rightarrow>
                  iter_docs_loop ps (items @
                    [\<lparr>filename = name p, filetype = ascii ''pdf'', pages = pgs\<rparr>]))
           else if sfx = ascii ''.docx'' then
             (case read_docx p of
                Inl e \<Rightarrow> Inl e
              | Inr pgs \<Rightarrow>
                  iter_docs_loop ps (items @
                    [\<lparr>filename = name p, filetype = ascii ''docx'', pages = pgs\<rparr>]))
           else iter_docs_loop ps items)"

text \<open>
  \<open>sorted\<close> compares the paths, which for the entries of one directory is comparing
  their names after the case normalisation of the path flavour: none for a
  \<open>PosixPath\<close>, \<open>str.lower\<close> for a \<open>WindowsPath\<close>. The normalisation is a parameter
  of \<open>iter_docs\<close>, so what is proved holds for both; strings compare code point by code
  point. \<open>windows\<close> below is the lower case of names written in ASCII.
\<close>

definition posix :: "pystr \<Rightarrow> pystr" where
  "posix s = s"

definition windows :: "pystr \<Rightarrow> pystr" where
  "windows s = py_lower s"

definition iter_docs :: "(pystr \<Rightarrow> pystr) \<Rightarrow> entry list \<Rightarrow> error + document list" where
  "iter_docs normcase docs_dir = iter_docs_loop (sort_key (\<lambda>p. normcase (name p)) docs_dir) []"

text \<open>
  In the words of the specification: a name has the extension \<open>e\<close>, compared without
  regard to letter case, when it ends in \<open>e\<close> with each letter in either case and
  something stands before it; the entries to load are the regular files with extension
  \<open>.txt\<close>, \<open>.pdf\<close> or \<open>.docx\<close>; such an entry is readable when the reader for its
  extension returns.
\<close>

fun ci_match :: "pystr \<Rightarrow> string \<Rightarrow> bool" where
  "ci_match [] [] = True"
| "ci_match (x # xs) (c # cs) =
     ((x = of_char c \<or> (97 \<le> (of_char c :: nat) \<and> (of_char c :: nat) \<le> 122 \<and> x + 32 = of_char c))
      \<and> ci_match xs cs)"
| "ci_match [] (c # cs) = False"
| "ci_match (x # xs) [] = False"

definition has_extension :: "pystr \<Rightarrow> string \<Rightarrow> bool" where
  "has_extension nm e \<longleftrightarrow>
     length e < length nm \<and> ci_match (drop (length nm - length e) nm) e"

definition supported :: "entry \<Rightarrow> bool" where
  "supported p \<longleftrightarrow>
     is_file p \<and>
     (has_extension (name p) ''.txt'' \<or> has_extension (name p) ''.pdf'' \<or>
      has_extension (name p) ''.docx'')"

definition returns :: "error + 'a \<Rightarrow> bool" where
  "returns r = (case r of Inl e \<Rightarrow> False | Inr v \<Rightarrow> True)"

definition readable :: "entry \<Rightarrow> bool" where
  "readable p \<longleftrightarrow>
     (if has_extension (name p) ''.txt'' then returns (file_text p)
      else if has_extension (name p) ''.pdf'' then returns (pdf_page_texts p)
      else if has_extension (name p) ''.docx'' then returns (docx_paragraphs p)
      else True)"

section \<open>IndexBuilder\<close>

definition CHUNK_SIZE :: int where
  "CHUNK_SIZE = 700"

definition CHUNK_OVERLAP :: int where
  "CHUNK_OVERLAP = 120"

text \<open>\<open>str\<close> of an integer, as an f-string formats it: decimal digits, \<open>-\<close> first if negative.\<close>

fun digits :: "nat \<Rightarrow> pystr" where
  "digits n = (if n < 10 then [48 + n] else digits (n div 10) @ [48 + n mod 10])"

declare digits.simps [simp del]

definition py_str_int :: "int \<Rightarrow> pystr" where
  "py_str_int i = (if i < 0 then 45 # digits (nat (- i)) else digits (nat i))"

definition chunk_id :: "pystr \<Rightarrow> int \<Rightarrow> int \<Rightarrow> pystr" where
  "chunk_id fn pg ch_i = fn @ ascii ''|p'' @ py_str_int pg @ ascii ''|c'' @ py_str_int ch_i"

text \<open>
  The three lists that \<open>rebuild_index\<close> fills and hands to \<open>col.add\<close>. The collection
  is deleted and created anew before, so these lists are its whole content afterwards.
\<close>

record index_state =
  ids :: "pystr list"
  documents :: "pystr list"
  metadatas :: "metadata list"

definition add_chunk :: "document \<Rightarrow> page \<Rightarrow> nat \<times> pystr \<Rightarrow> index_state \<Rightarrow> index_state" where
  "add_chunk d pg x st =
     (case x of (ch_i, ch) \<Rightarrow>
        st\<lparr>ids := ids st @ [chunk_id (filename d) (page_no pg) (int ch_i)],
           documents := documents st @ [ch],
           metadatas := metadatas st @
             [[(ascii ''filename'', PyStr (filename d)),
               (ascii ''filetype'', PyStr (filetype d)),
               (ascii ''page'', PyInt (page_no pg)),
               (ascii ''chunk_index'', PyInt (int ch_i))]]\<rparr>)"

fun page_loop :: "document \<Rightarrow> page list \<Rightarrow> index_state \<Rightarrow> index_state option" where
  "page_loop d [] st = Some st"
| "page_loop d (pg # pgs) st =
     (case chunk_text (page_text pg) CHUNK_SIZE CHUNK_OVERLAP of
        None \<Rightarrow> None
      | Some chunks \<Rightarrow> page_loop d pgs (fold (add_chunk d pg) (enumerate 0 chunks) st))"

fun doc_loop :: "document list \<Rightarrow> index_state \<Rightarrow> index_state option" where
  "doc_loop [] st = Some st"
| "doc_loop (d # ds) st =
     (case page_loop d (pages d) st of None \<Rightarrow> None | Some st' \<Rightarrow> doc_loop ds st')"

definition rebuild_index ::
  "(pystr \<Rightarrow> pystr) \<Rightarrow> entry list \<Rightarrow> (error + index_state \<times> nat \<times> nat) option" where
  "rebuild_index normcase docs_dir =
     (case iter_docs normcase docs_dir of
        Inl e \<Rightarrow> Some (Inl e)
      | Inr docs \<Rightarrow>
          (case doc_loop docs \<lparr>ids = [], documents = [], metadatas = []\<rparr> of
             None \<Rightarrow> None
           | Some st \<Rightarrow> Some (Inr (st, length (ids st), length docs))))"

text \<open>
  For the proofs: the decimal digits and the number they denote, the id of a key
  \<open>(filename, page, chunk_index)\<close>, and the pages of a document carrying distinct,
  non-negative page numbers.
\<close>

definition is_digit :: "nat \<Rightarrow> bool" where
  "is_digit c \<longleftrightarrow> 48 \<le> c \<and> c \<le> 57"

definition digits_value :: "pystr \<Rightarrow> nat" where
  "digits_value ds = fold (\<lambda>c acc. acc * 10 + (c - 48)) ds 0"

definition key_id :: "pystr \<times> int \<times> int \<Rightarrow> pystr" where
  "key_id k = chunk_id (fst k) (fst (snd k)) (snd (snd k))"

definition pages_ok :: "document \<Rightarrow> bool" where
  "pages_ok d \<longleftrightarrow> distinct (map page_no (pages d)) \<and> list_all (\<lambda>pg. 0 \<le> page_no pg) (pages d)"

text \<open>
  A directory of two supported files, a PDF of three pages whose second page has no text
  and a text file with an upper-case extension, next to a directory named like a text
  file, a file of another type and a file whose whole name is \<open>.txt\<close>; a directory
  whose one PDF cannot be parsed; and a directory of two text files whose names differ in
  the case of their first letter.
\<close>

definition sample_dir :: "entry list" where
  "sample_dir =
     [\<lparr>name = ascii ''b.TXT'', is_file = True, file_text = Inr (ascii '' hello ''),
        pdf_page_texts = Inl ReaderError, docx_paragraphs = Inl ReaderError\<rparr>,
      \<lparr>name = ascii ''sub.txt'', is_file = False, file_text = Inl ReaderError,
        pdf_page_texts = Inl ReaderError, docx_paragraphs = Inl ReaderError\<rparr>,
      \<lparr>name = ascii ''a.pdf'', is_file = True, file_text = Inr [],
        pdf_page_texts = Inr [Some (ascii ''x''), None, Some (ascii ''y'')],
        docx_paragraphs = Inl ReaderError\<rparr>,
      \<lparr>name = ascii ''notes.md'', is_file = True, file_text = Inr (ascii ''n''),
        pdf_page_texts = Inl ReaderError, docx_paragraphs = Inl ReaderError\<rparr>,
      \<lparr>name = ascii ''.txt'', is_file = True, file_text = Inr (ascii ''h''),
        pdf_page_texts = Inl ReaderError, docx_paragraphs = Inl ReaderError\<rparr>]"

definition corrupt_dir :: "entry list" where
  "corrupt_dir =
     [\<lparr>name = ascii ''a.pdf'', is_file = True, file_text = Inr (ascii ''%PDF''),
        pdf_page_texts = Inl ReaderError, docx_paragraphs = Inl ReaderError\<rparr>]"

definition mixed_case_dir :: "entry list" where
  "mixed_case_dir =
     [\<lparr>name = ascii ''B.txt'', is_file = True, file_text = Inr (ascii ''b''),
        pdf_page_texts = Inl ReaderError, docx_paragraphs = Inl ReaderError\<rparr>,
      \<lparr>name = ascii ''a.txt'', is_file = True, file_text = Inr (ascii ''a''),
        pdf_page_texts = Inl ReaderError, docx_paragraphs = Inl ReaderError\<rparr>]"

section \<open>Properties of the chunker\<close>

lemma slice_plain:
  "0 \<le> i \<Longrightarrow> i \<le> j \<Longrightarrow> j \<le> int (length xs) \<Longrightarrow>
     py_slice xs i j = take (nat (j - i)) (drop (nat i) xs)"
  by (simp add: py_slice_def Let_def min_def)

lemma chunk_loop_spec:
  assumes "0 < sz" "0 \<le> ov" "ov < sz"
  shows "0 \<le> start \<Longrightarrow> start < int (length text) \<Longrightarrow>
     \<exists>cs ws. chunk_loop text sz ov start (a, b) = Some (a @ cs, b @ ws) \<and>
        cs = map (\<lambda>(s, e). py_slice text s e) ws \<and>
        ws \<noteq> [] \<and> hd ws = (start, min (start + sz) (int (length text))) \<and>
        snd (last ws) = int (length text) \<and>
        sorted_wrt (<) (map fst ws) \<and>
        reconstruct ov cs = drop (nat start) text"
proof (induction "nat (int (length text) - start)" arbitrary: start a b rule: less_induct)
  case less
  let ?n = "int (length text)"
  let ?e = "min (start + sz) ?n"
  show ?case
  proof (cases "?e = ?n")
    case True
    have l: "chunk_loop text sz ov start (a, b) = Some (a @ [py_slice text start ?e], b @ [(start, ?e)])"
      using less.prems True by (subst chunk_loop.simps) (simp add: Let_def)
    have "py_slice text start ?e = drop (nat start) text"
      using less.prems True by (simp add: slice_plain)
    then show ?thesis using l True by simp
  next
    case False
    then have e: "?e = start + sz" and lt: "start + sz < ?n" by (auto simp: min_def split: if_splits)
    let ?s' = "start + sz - ov"
    have s': "0 \<le> ?s'" "?s' < ?n" "start < ?s'" using assms less.prems lt by auto
    have l: "chunk_loop text sz ov start (a, b) =
       chunk_loop text sz ov ?s' (a @ [py_slice text start (start + sz)], b @ [(start, start + sz)])"
      using less.prems False e s' by (subst chunk_loop.simps) (simp add: Let_def max_def)
    have m: "nat (?n - ?s') < nat (?n - start)" using s' by auto
    from less.hyps[OF m s'(1) s'(2), of "a @ [py_slice text start (start + sz)]" "b @ [(start, start + sz)]"]
    obtain cs ws where IH:
      "chunk_loop text sz ov ?s' (a @ [py_slice text start (start + sz)], b @ [(start, start + sz)])
         = Some ((a @ [py_slice text start (start + sz)]) @ cs, (b @ [(start, start + sz)]) @ ws)"
      "cs = map (\<lambda>(s, e). py_slice text s e) ws" "ws \<noteq> []"
      "hd ws = (?s', min (?s' + sz) ?n)" "snd (last ws) = ?n"
      "sorted_wrt (<) (map fst ws)" "reconstruct ov cs = drop (nat ?s') text"
      by blast
    let ?cs = "py_slice text start (start + sz) # cs"
    let ?ws = "(start, start + sz) # ws"
    have 1: "chunk_loop text sz ov start (a, b) = Some (a @ ?cs, b @ ?ws)"
      using l IH(1) by simp
    have 2: "?cs = map (\<lambda>(s, e). py_slice text s e) ?ws" using IH(2) by simp
    have 3: "hd ?ws = (start, ?e)" using e by simp
    have 4: "snd (last ?ws) = ?n" using IH(3,5) by simp
    have hdws: "fst (hd ws) = ?s'" using IH(4) by simp
    have mono: "\<forall>x\<in>set (map fst ws). ?s' \<le> x"
      using IH(3,6) hdws by (cases ws) (auto simp: less_imp_le)
    have 5: "sorted_wrt (<) (map fst ?ws)" using IH(6) mono s'(3) by auto
    obtain w ws' where ws: "ws = w # ws'" using IH(3) by (cases ws) auto
    have w: "w = (?s', min (?s' + sz) ?n)" using IH(4) ws by simp
    obtain c cs' where cs: "cs = c # cs'" "c = py_slice text ?s' (min (?s' + sz) ?n)"
      using IH(2) ws w by auto
    have c: "c = take (nat (min (?s' + sz) ?n - ?s')) (drop (nat ?s') text)"
      using cs(2) s' assms by (simp add: slice_plain)
    have lenc: "nat ov \<le> length c"
      using c s' assms lt less.prems by (auto simp: min_def)
    have "drop (nat ov) c @ concat (map (drop (nat ov)) cs') = drop (nat ov) (reconstruct ov cs)"
      using cs(1) lenc by simp
    also have "\<dots> = drop (nat ov) (drop (nat ?s') text)" using IH(7) by simp
    also have "\<dots> = drop (nat (start + sz)) text"
      using assms less.prems by (simp add: nat_add_distrib[symmetric] add.commute)
    finally have r: "concat (map (drop (nat ov)) cs) = drop (nat (start + sz)) text"
      using cs(1) by simp
    have sl: "py_slice text start (start + sz) = take (nat sz) (drop (nat start) text)"
      using less.prems lt assms by (simp add: slice_plain)
    have "drop (nat (start + sz)) text = drop (nat sz) (drop (nat start) text)"
      using assms less.prems by (simp add: nat_add_distrib add.commute)
    then have "concat (map (drop (nat ov)) cs) = drop (nat sz) (drop (nat start) text)"
      using r by simp
    then have 6: "reconstruct ov ?cs = drop (nat start) text"
      using sl by (simp del: drop_drop)
    have "chunk_loop text sz ov start (a, b) = Some (a @ ?cs, b @ ?ws) \<and>
        ?cs = map (\<lambda>(s, e). py_slice text s e) ?ws \<and>
        ?ws \<noteq> [] \<and> hd ?ws = (start, ?e) \<and> snd (last ?ws) = ?n \<and>
        sorted_wrt (<) (map fst ?ws) \<and> reconstruct ov ?cs = drop (nat start) text"
      using 1 2 3 4 5 6 by (intro conjI) simp_all
    then show ?thesis by (intro exI)
  qed
qed

lemma length_replace_crlf: "length (replace_crlf t) \<le> length t"
  by (induction t rule: replace_crlf.induct) auto

lemma length_py_strip: "length (py_strip s) \<le> length s"
proof -
  have "length (dropWhile py_isspace (rev (dropWhile py_isspace s))) \<le> length (rev (dropWhile py_isspace s))"
    by (rule length_dropWhile_le)
  also have "\<dots> \<le> length s" by (simp add: length_dropWhile_le)
  finally show ?thesis by (simp add: py_strip_def)
qed

lemma length_normalise: "length (normalise t) \<le> length t"
  using length_py_strip[of "replace_crlf t"] length_replace_crlf[of t]
  by (simp add: normalise_def)

lemma chunk_run_returns:
  assumes "0 < sz" "0 \<le> ov" "ov < sz"
  shows "\<exists>cs ws. chunk_run t sz ov = Some (cs, ws) \<and> length cs = length ws \<and>
           sorted_wrt (<) (map fst ws)"
proof (cases "normalise t = []")
  case True
  then show ?thesis by (simp add: chunk_run_def)
next
  case False
  then have "0 < int (length (normalise t))" by simp
  from chunk_loop_spec[OF assms, of 0 "normalise t" "[]" "[]"] this obtain cs ws where
    "chunk_loop (normalise t) sz ov 0 ([], []) = Some (cs, ws)"
    "cs = map (\<lambda>(s, e). py_slice (normalise t) s e) ws" "sorted_wrt (<) (map fst ws)"
    by auto
  then show ?thesis using False by (simp add: chunk_run_def)
qed

lemma chunk_text_default_returns: "\<exists>chunks. chunk_text t CHUNK_SIZE CHUNK_OVERLAP = Some chunks"
  using chunk_run_returns[of CHUNK_SIZE CHUNK_OVERLAP t]
  by (auto simp: chunk_text_def CHUNK_SIZE_def CHUNK_OVERLAP_def)

text \<open>
  C3. Whenever \<open>chunk_size > 0\<close> and \<open>0 \<le> overlap < chunk_size\<close>, \<open>chunk_text\<close>
  returns, for every input text, and the start offsets of the iterations of its loop, in the
  order of the iterations, increase strictly.
\<close>

theorem chunk_text_terminates:
  assumes "0 < chunk_size" "0 \<le> overlap" "overlap < chunk_size"
  shows "\<exists>chunks ws. chunk_text t chunk_size overlap = Some chunks \<and>
           chunk_windows t chunk_size overlap = Some ws \<and>
           length chunks = length ws \<and> sorted_wrt (<) (map fst ws)"
  using chunk_run_returns[OF assms, of t]
  by (auto simp: chunk_text_def chunk_windows_def)

theorem chunk_text_terminates_witness:
  "(0::int) < 3 \<and> (0::int) \<le> 1 \<and> (1::int) < 3 \<and>
   (\<exists>chunks ws. chunk_text [97, 98, 99, 100, 101] 3 1 = Some chunks \<and>
      chunk_windows [97, 98, 99, 100, 101] 3 1 = Some ws \<and>
      length chunks = length ws \<and> sorted_wrt (<) (map fst ws)) \<and>
   chunk_windows [97, 98, 99, 100, 101] 3 1 = Some [(0, 3), (2, 5)]"
proof -
  have "chunk_windows [97, 98, 99, 100, 101] 3 1 = Some [(0, 3), (2, 5)]"
    by (simp add: chunk_windows_def chunk_run_def normalise_def py_strip_def py_isspace_def
        chunk_loop.simps py_slice_def Let_def)
  then show ?thesis
    using chunk_text_terminates[of 3 1 "[97, 98, 99, 100, 101]"] by simp
qed

text \<open>
  C1, as amended. For every input whose normalised form (CRLF replaced by LF, then
  stripped of leading and trailing white space) is not empty, and every
  \<open>chunk_size > 0\<close> and \<open>0 \<le> overlap < chunk_size\<close>: \<open>chunk_text\<close> returns;
  each chunk is the slice of the normalised text at its window; the first chunk followed by
  every later chunk without its first \<open>overlap\<close> characters is the normalised text;
  and the end of the last window is the length of the normalised text.
\<close>

theorem chunk_text_reconstructs:
  assumes "normalise t \<noteq> []" "0 < chunk_size" "0 \<le> overlap" "overlap < chunk_size"
  shows "\<exists>chunks ws. chunk_text t chunk_size overlap = Some chunks \<and>
           chunk_windows t chunk_size overlap = Some ws \<and>
           chunks = map (\<lambda>(s, e). py_slice (normalise t) s e) ws \<and>
           reconstruct overlap chunks = normalise t \<and>
           ws \<noteq> [] \<and> snd (last ws) = int (length (normalise t))"
proof -
  have "0 < int (length (normalise t))" using assms(1) by simp
  from chunk_loop_spec[OF assms(2-4), of 0 "normalise t" "[]" "[]"] this obtain cs ws where
    "chunk_loop (normalise t) chunk_size overlap 0 ([], []) = Some (cs, ws)"
    "cs = map (\<lambda>(s, e). py_slice (normalise t) s e) ws" "ws \<noteq> []"
    "snd (last ws) = int (length (normalise t))"
    "reconstruct overlap cs = normalise t"
    by auto
  then show ?thesis using assms(1)
    by (simp add: chunk_text_def chunk_windows_def chunk_run_def)
qed

theorem chunk_text_reconstructs_witness:
  "normalise [97, 98, 99, 100, 101, 32] \<noteq> [] \<and> (0::int) < 3 \<and> (0::int) \<le> 1 \<and> (1::int) < 3 \<and>
   chunk_text [97, 98, 99, 100, 101, 32] 3 1 = Some [[97, 98, 99], [99, 100, 101]] \<and>
   chunk_windows [97, 98, 99, 100, 101, 32] 3 1 = Some [(0, 3), (2, 5)] \<and>
   reconstruct 1 [[97, 98, 99], [99, 100, 101]] = normalise [97, 98, 99, 100, 101, 32] \<and>
   normalise [97, 98, 99, 100, 101, 32] = [97, 98, 99, 100, 101]"
proof -
  have n: "normalise [97, 98, 99, 100, 101, 32] = [97, 98, 99, 100, 101]"
    by (simp add: normalise_def py_strip_def py_isspace_def)
  have r: "chunk_run [97, 98, 99, 100, 101, 32] 3 1
             = Some ([[97, 98, 99], [99, 100, 101]], [(0, 3), (2, 5)])"
    by (simp add: chunk_run_def n chunk_loop.simps py_slice_def Let_def)
  show ?thesis
    using chunk_text_reconstructs[of "[97, 98, 99, 100, 101, 32]" 3 1] n r
    by (simp add: chunk_text_def chunk_windows_def)
qed

text \<open>
  As stated, for the input itself, the property fails on an input with a leading
  blank: the one chunk is \<open>a\<close>, not \<open> a\<close>, and the last window ends at 1, not at 2.
\<close>

theorem chunk_text_original_counterexample:
  "chunk_text [32, 97] 1 0 = Some [[97]] \<and> reconstruct 0 [[97]] \<noteq> [32, 97] \<and>
   chunk_windows [32, 97] 1 0 = Some [(0, 1)] \<and> snd (last [(0::int, 1::int)]) \<noteq> int (length [32::nat, 97])"
  by (simp add: chunk_text_def chunk_windows_def chunk_run_def normalise_def py_strip_def
      py_isspace_def chunk_loop.simps py_slice_def Let_def)

text \<open>
  C7, as amended. For every input whose normalised form is not empty and has a length of at
  most \<open>chunk_size\<close>, whatever the overlap, \<open>chunk_text\<close> returns exactly one chunk,
  the normalised input. (The normalised form is never longer than the input:
  \<open>length_normalise\<close>.)
\<close>

theorem chunk_text_single:
  assumes "normalise t \<noteq> []" "int (length (normalise t)) \<le> chunk_size"
  shows "chunk_text t chunk_size overlap = Some [normalise t]"
proof -
  let ?text = "normalise t"
  have "0 < int (length ?text)" using assms(1) by simp
  moreover have "min (0 + chunk_size) (int (length ?text)) = int (length ?text)"
    using assms(2) by simp
  moreover have "py_slice ?text 0 (int (length ?text)) = ?text"
    by (simp add: py_slice_def)
  ultimately have "chunk_loop ?text chunk_size overlap 0 ([], [])
      = Some ([?text], [(0, int (length ?text))])"
    by (subst chunk_loop.simps) (simp add: Let_def)
  then show ?thesis using assms(1) by (simp add: chunk_text_def chunk_run_def Let_def)
qed

theorem chunk_text_single_witness:
  "normalise [32, 97, 13, 10, 98, 10] \<noteq> [] \<and> int (length (normalise [32, 97, 13, 10, 98, 10])) \<le> 3 \<and>
   chunk_text [32, 97, 13, 10, 98, 10] 3 7 = Some [[97, 10, 98]]"
proof -
  have n: "normalise [32, 97, 13, 10, 98, 10] = [97, 10, 98]"
    by (simp add: normalise_def py_strip_def py_isspace_def)
  show ?thesis using chunk_text_single[of "[32, 97, 13, 10, 98, 10]" 3 7] n by simp
qed

text \<open>
  As stated, the property fails on the empty text, which gives no chunk at all, and on a
  text with a CRLF inside, whose chunk is not the stripped input.
\<close>

theorem chunk_text_single_counterexample:
  "int (length ([]::pystr)) \<le> 5 \<and> chunk_text [] 5 0 = Some [] \<and>
   int (length [97::nat, 13, 10, 98]) \<le> 5 \<and> chunk_text [97, 13, 10, 98] 5 0 = Some [[97, 10, 98]] \<and>
   py_strip [97, 13, 10, 98] = [97, 13, 10, 98]"
  by (simp add: chunk_text_def chunk_run_def normalise_def py_strip_def
      py_isspace_def chunk_loop.simps py_slice_def Let_def)

section \<open>Properties of the translation gate\<close>

lemma py_strip_decomp:
  "\<exists>a b. s = a @ py_strip s @ b \<and> (\<forall>c\<in>set a. py_isspace c) \<and> (\<forall>c\<in>set b. py_isspace c)"
proof -
  let ?u = "dropWhile py_isspace s"
  let ?a = "takeWhile py_isspace s"
  let ?b = "rev (takeWhile py_isspace (rev ?u))"
  have "?u = rev (dropWhile py_isspace (rev ?u)) @ ?b"
    by (metis rev_append rev_rev_ident takeWhile_dropWhile_id)
  then have u: "?u = py_strip s @ ?b" by (simp only: py_strip_def)
  have "s = ?a @ ?u" by simp
  then have "s = ?a @ py_strip s @ ?b" using u by simp
  moreover have "\<forall>c\<in>set ?a. py_isspace c" by (auto dest: set_takeWhileD)
  moreover have "\<forall>c\<in>set ?b. py_isspace c" by (auto dest: set_takeWhileD)
  ultimately show ?thesis by blast
qed

lemma py_strip_empty_iff: "py_strip s = [] \<longleftrightarrow> (\<forall>c\<in>set s. py_isspace c)"
proof
  assume "py_strip s = []"
  then show "\<forall>c\<in>set s. py_isspace c"
    using py_strip_decomp[of s] by (metis Un_iff append_Nil set_append)
next
  assume "\<forall>c\<in>set s. py_isspace c"
  then have "dropWhile py_isspace s = []" by (induction s) auto
  then show "py_strip s = []" by (simp only: py_strip_def rev.simps dropWhile.simps)
qed

lemma space_not_cjk: "py_isspace c \<Longrightarrow> \<not> (19968 \<le> c \<and> c \<le> 40959)"
  by (auto simp: py_isspace_def)

lemma space_not_latin: "py_isspace c \<Longrightarrow> \<not> ((65 \<le> c \<and> c \<le> 90) \<or> (97 \<le> c \<and> c \<le> 122))"
  by (auto simp: py_isspace_def)

lemma has_cjk_strip: "has_cjk (py_strip t) = has_cjk t"
proof -
  obtain a b where d: "t = a @ py_strip t @ b" "\<forall>c\<in>set a. py_isspace c" "\<forall>c\<in>set b. py_isspace c"
    using py_strip_decomp by blast
  have "has_cjk t = has_cjk (a @ py_strip t @ b)" using d(1) by simp
  also have "\<dots> = has_cjk (py_strip t)"
    using d(2,3) space_not_cjk unfolding has_cjk_def list_ex_iff by auto
  finally show ?thesis by simp
qed

lemma has_latin_strip: "has_latin (py_strip t) = has_latin t"
proof -
  obtain a b where d: "t = a @ py_strip t @ b" "\<forall>c\<in>set a. py_isspace c" "\<forall>c\<in>set b. py_isspace c"
    using py_strip_decomp by blast
  have "has_latin t = has_latin (a @ py_strip t @ b)" using d(1) by simp
  also have "\<dots> = has_latin (py_strip t)"
    using d(2,3) space_not_latin unfolding has_latin_def list_ex_iff by auto
  finally show ?thesis by simp
qed

lemma en_neq_zh: "ascii ''en'' \<noteq> ascii ''zh''"
  by (simp add: ascii_def)

text \<open>
  C2, as amended. For a target language \<open>en\<close> or \<open>zh\<close>: \<open>translate_text\<close>
  translates zh\<rightarrow>en, that is, calls the zh\<rightarrow>en provider (on the stripped text) and gives
  back the translation the provider returns, exactly when the target is \<open>en\<close>, the input
  has a CJK character and no Latin letter, and that provider is available; it translates
  en\<rightarrow>zh in the same way exactly when the target is \<open>zh\<close>, the input has a Latin letter
  and no CJK character, and that provider is available; in every other case no provider
  is invoked and the result is the input with its leading and trailing white space
  stripped.
\<close>

theorem translate_text_gate:
  assumes "target_lang = ascii ''en'' \<or> target_lang = ascii ''zh''"
  shows "(invoked ZhEn (snd (translate_text (zh2en, en2zh) t target_lang)) \<longleftrightarrow>
            target_lang = ascii ''en'' \<and> has_cjk t \<and> \<not> has_latin t \<and> zh2en \<noteq> None) \<and>
         (invoked EnZh (snd (translate_text (zh2en, en2zh) t target_lang)) \<longleftrightarrow>
            target_lang = ascii ''zh'' \<and> has_latin t \<and> \<not> has_cjk t \<and> en2zh \<noteq> None) \<and>
         (\<not> invoked ZhEn (snd (translate_text (zh2en, en2zh) t target_lang)) \<and>
          \<not> invoked EnZh (snd (translate_text (zh2en, en2zh) t target_lang)) \<longrightarrow>
            translate_text (zh2en, en2zh) t target_lang = (Inr (py_strip t), [])) \<and>
         (invoked ZhEn (snd (translate_text (zh2en, en2zh) t target_lang)) \<and>
          zh2en = Some f \<and> f (py_strip t) 512 = Returns r \<longrightarrow>
            translate_text (zh2en, en2zh) t target_lang
              = (Inr r, [(ZhEn, py_strip t, Returns r)])) \<and>
         (invoked EnZh (snd (translate_text (zh2en, en2zh) t target_lang)) \<and>
          en2zh = Some g \<and> g (py_strip t) 512 = Returns r' \<longrightarrow>
            translate_text (zh2en, en2zh) t target_lang
              = (Inr r', [(EnZh, py_strip t, Returns r')]))"
proof (cases "py_strip t = []")
  case True
  then have "\<not> has_cjk t" "\<not> has_latin t"
    using has_cjk_strip[of t] has_latin_strip[of t] by (simp_all add: has_cjk_def has_latin_def)
  then show ?thesis using True by (simp add: translate_text_def invoked_def)
next
  case False
  then show ?thesis using assms en_neq_zh
    by (auto simp: translate_text_def invoked_def Let_def invoke_def has_cjk_strip has_latin_strip
        split: option.splits outcome.splits)
qed

theorem translate_text_gate_witness:
  "(ascii ''en'' = ascii ''en'' \<or> ascii ''en'' = ascii ''zh'') \<and>
   has_cjk [20320, 22909, 32] \<and> \<not> has_latin [20320, 22909, 32] \<and>
   invoked ZhEn (snd (translate_text (Some fixed_provider, None) [20320, 22909, 32] (ascii ''en''))) \<and>
   fixed_provider (py_strip [20320, 22909, 32]) 512 = Returns (ascii ''hello'') \<and>
   translate_text (Some fixed_provider, None) [20320, 22909, 32] (ascii ''en'')
     = (Inr (ascii ''hello''), [(ZhEn, [20320, 22909], Returns (ascii ''hello''))]) \<and>
   \<not> invoked ZhEn (snd (translate_text (Some fixed_provider, None) [72, 105, 32, 20320] (ascii ''en''))) \<and>
   translate_text (Some fixed_provider, None) [72, 105, 32, 20320] (ascii ''en'')
     = (Inr [72, 105, 32, 20320], [])"
proof -
  have c: "has_cjk [20320, 22909, 32]" "\<not> has_latin [20320, 22909, 32]"
    "has_cjk [72, 105, 32, 20320]" "has_latin [72, 105, 32, 20320]"
    by (simp_all add: has_cjk_def has_latin_def)
  have s: "py_strip [72, 105, 32, 20320] = [72, 105, 32, 20320]"
    "py_strip [20320, 22909, 32] = [20320, 22909]"
    by (simp_all add: py_strip_def py_isspace_def)
  have f: "fixed_provider [20320, 22909] 512 = Returns (ascii ''hello'')"
    by (simp add: fixed_provider_def)
  show ?thesis
    using translate_text_gate[of "ascii ''en''" "Some fixed_provider" None "[20320, 22909, 32]"
        fixed_provider "ascii ''hello''" fixed_provider "ascii ''hello''"]
      translate_text_gate[of "ascii ''en''" "Some fixed_provider" None "[72, 105, 32, 20320]"
        fixed_provider "ascii ''hello''" fixed_provider "ascii ''hello''"] c s f
    by (simp add: en_neq_zh)
qed

text \<open>
  As stated, with the snippet returned unchanged, the property fails on an English text
  with a leading blank and target \<open>en\<close>: the blank is gone from the result.
\<close>

theorem translate_text_unchanged_counterexample:
  "\<not> has_cjk [32, 72, 105] \<and>
   translate_text (None, None) [32, 72, 105] (ascii ''en'') = (Inr [72, 105], []) \<and>
   fst (translate_text (None, None) [32, 72, 105] (ascii ''en'')) \<noteq> Inr [32, 72, 105]"
  by (simp add: translate_text_def py_strip_def py_isspace_def has_cjk_def has_latin_def
      ascii_def Let_def)




text \<open>
  C8, as amended. For every empty or white-space-only input and every target language,
  whatever the providers, \<open>translate_text\<close> returns the empty string and invokes no
  provider.
\<close>

theorem translate_text_blank:
  assumes "\<forall>c\<in>set t. py_isspace c"
  shows "translate_text tr t target_lang = (Inr [], [])"
  using assms py_strip_empty_iff[of t] by (simp add: translate_text_def)

theorem translate_text_blank_witness:
  "py_isspace 32 \<and> py_isspace 9 \<and> py_isspace 10 \<and>
   translate_text (Some raising_provider, Some raising_provider) [32, 9, 10] (ascii ''zh'')
     = (Inr [], [])"
proof -
  have h: "\<forall>c\<in>set [32, 9, 10]. py_isspace c" by (simp add: py_isspace_def)
  show ?thesis using translate_text_blank[OF h] h by simp
qed

text \<open>
  As stated, with the input returned unchanged, the property fails on an input of a blank
  and a tab: the result is the empty string.
\<close>

theorem translate_text_blank_counterexample:
  "py_isspace 32 \<and> py_isspace 9 \<and>
   fst (translate_text (Some raising_provider, Some raising_provider) [32, 9] (ascii ''zh''))
     \<noteq> Inr [32, 9]"
  by (simp add: translate_text_def py_strip_def py_isspace_def)

text \<open>
  The runs without a translation are the passthrough branches of the source: a blank
  input, a target language other than \<open>en\<close> and \<open>zh\<close>, a missing or mixed script, an
  unavailable provider, and a provider that raises.
\<close>

lemma not_translated_iff:
  "\<not> translated (snd (translate_text (zh2en, en2zh) t target_lang)) \<longleftrightarrow>
     py_strip t = [] \<or>
     (target_lang \<noteq> ascii ''en'' \<and> target_lang \<noteq> ascii ''zh'') \<or>
     (target_lang = ascii ''en'' \<and>
        (\<not> has_cjk t \<or> has_latin t \<or> zh2en = None \<or>
         (\<exists>f. zh2en = Some f \<and>
            (f (py_strip t) 512 = Raises \<or> f (py_strip t) 512 = RaisesBase)))) \<or>
     (target_lang = ascii ''zh'' \<and>
        (\<not> has_latin t \<or> has_cjk t \<or> en2zh = None \<or>
         (\<exists>f. en2zh = Some f \<and>
            (f (py_strip t) 512 = Raises \<or> f (py_strip t) 512 = RaisesBase))))"
  using en_neq_zh
  by (auto simp: translate_text_def Let_def invoke_def has_cjk_strip has_latin_strip
      split: option.splits outcome.splits)



section \<open>Properties of the retriever\<close>

lemma retrieve_loop_filter:
  "retrieve_loop xs out = out @ filter (\<lambda>(d, m). truthy d \<and> truthy m) xs"
  by (induction xs out rule: retrieve_loop.induct) auto

text \<open>
  C5, as amended. For every question and every store response whose \<open>documents\<close> and
  \<open>metadatas\<close> hold the rows \<open>ds\<close> and \<open>ms\<close>, \<open>retrieve\<close> returns exactly the pairs
  of \<open>zip ds ms\<close> whose document and metadata are both neither \<open>None\<close> nor empty, in
  the order of the store; the result is no longer than what the store returned, and so at
  most \<open>top_k\<close> long whenever the store returned at most \<open>top_k\<close> documents.
\<close>

theorem retrieve_filters:
  assumes "res_documents (query question top_k) = Some (ds # dss)"
    and "res_metadatas (query question top_k) = Some (ms # mss)"
  shows "\<exists>out. retrieve query question top_k = Inr out \<and>
           out = filter (\<lambda>(d, m). truthy d \<and> truthy m) (zip ds ms) \<and>
           length out \<le> length ds \<and> length out \<le> length ms \<and>
           (int (length ds) \<le> top_k \<longrightarrow> int (length out) \<le> top_k)"
proof -
  let ?out = "filter (\<lambda>(d, m). truthy d \<and> truthy m) (zip ds ms)"
  have r: "retrieve query question top_k = Inr ?out"
    using assms by (simp add: retrieve_def first_row_def retrieve_loop_filter)
  have "length ?out \<le> length (zip ds ms)" by (rule length_filter_le)
  then have l: "length ?out \<le> length ds" "length ?out \<le> length ms" by simp_all
  then have "int (length ds) \<le> top_k \<longrightarrow> int (length ?out) \<le> top_k" by linarith
  then show ?thesis using r l by simp
qed

theorem retrieve_filters_witness:
  "res_documents (two_hit_store (ascii ''q'') 3)
     = Some ([Some (ascii ''a''), None, Some (ascii ''b'')] # []) \<and>
   res_metadatas (two_hit_store (ascii ''q'') 3)
     = Some ([Some [(ascii ''page'', PyInt 0)], Some [(ascii ''page'', PyInt 1)],
              Some [(ascii ''page'', PyInt 2)]] # []) \<and>
   retrieve two_hit_store (ascii ''q'') 3
     = Inr [(Some (ascii ''a''), Some [(ascii ''page'', PyInt 0)]),
            (Some (ascii ''b''), Some [(ascii ''page'', PyInt 2)])]"
proof -
  have d: "res_documents (two_hit_store (ascii ''q'') 3)
     = Some ([Some (ascii ''a''), None, Some (ascii ''b'')] # [])"
    by (simp add: two_hit_store_def)
  have m: "res_metadatas (two_hit_store (ascii ''q'') 3)
     = Some ([Some [(ascii ''page'', PyInt 0)], Some [(ascii ''page'', PyInt 1)],
              Some [(ascii ''page'', PyInt 2)]] # [])"
    by (simp add: two_hit_store_def)
  show ?thesis
    using retrieve_filters[of two_hit_store "ascii ''q''" 3
        "[Some (ascii ''a''), None, Some (ascii ''b'')]" "[]"
        "[Some [(ascii ''page'', PyInt 0)], Some [(ascii ''page'', PyInt 1)],
          Some [(ascii ''page'', PyInt 2)]]" "[]"] d m
    by (simp add: truthy_def ascii_def)
qed

text \<open>
  As stated, for every store response, the bound by \<open>top_k\<close> fails: \<open>retrieve\<close> does
  not cut the response, and a response of three hits to a query for one gives two pairs.
\<close>

theorem retrieve_top_k_counterexample:
  "retrieve two_hit_store (ascii ''q'') 1
     = Inr [(Some (ascii ''a''), Some [(ascii ''page'', PyInt 0)]),
            (Some (ascii ''b''), Some [(ascii ''page'', PyInt 2)])] \<and>
   \<not> int (length [(Some (ascii ''a''), Some [(ascii ''page'', PyInt 0)]),
            (Some (ascii ''b''), Some [(ascii ''page'', PyInt 2)])]) \<le> 1"
  by (simp add: retrieve_def two_hit_store_def first_row_def truthy_def ascii_def)

section \<open>Properties of the document loader\<close>

lemma ci_match_lower:
  "\<forall>c\<in>set e. \<not> (65 \<le> (of_char c :: nat) \<and> (of_char c :: nat) \<le> 90) \<Longrightarrow>
     ci_match x e \<longleftrightarrow> py_lower x = ascii e"
proof (induction x e rule: ci_match.induct)
  case 1
  then show ?case by (simp add: py_lower_def ascii_def)
next
  case (2 x xs c cs)
  then have IH: "ci_match xs cs \<longleftrightarrow> py_lower xs = ascii cs" by simp
  have c: "\<not> (65 \<le> (of_char c :: nat) \<and> (of_char c :: nat) \<le> 90)" using 2 by simp
  have "(x = of_char c \<or> (97 \<le> (of_char c :: nat) \<and> (of_char c :: nat) \<le> 122 \<and> x + 32 = of_char c))
      \<longleftrightarrow> (if 65 \<le> x \<and> x \<le> 90 then x + 32 else x) = of_char c"
    using c by auto
  then show ?case using IH by (simp add: py_lower_def ascii_def)
next
  case (3 c cs)
  then show ?case by (simp add: py_lower_def ascii_def)
next
  case (4 x xs)
  then show ?case by (simp add: py_lower_def ascii_def)
qed

lemma py_rfind_absent: "c \<notin> set ys \<Longrightarrow> py_rfind c ys = - 1"
  by (induction ys) (auto simp: Let_def)

lemma py_rfind_last: "c \<notin> set ys \<Longrightarrow> py_rfind c (xs @ c # ys) = int (length xs)"
  by (induction xs) (auto simp: Let_def py_rfind_absent)

lemma suffix_drop:
  assumes "suffix nm \<noteq> []"
  shows "\<exists>k. 0 < k \<and> k < length nm \<and> suffix nm = drop k nm"
proof -
  let ?i = "py_rfind 46 nm"
  have i: "0 < ?i" "?i < int (length nm) - 1" and s: "suffix nm = py_slice nm ?i (int (length nm))"
    using assms by (auto simp: suffix_def Let_def split: if_splits)
  have "py_slice nm ?i (int (length nm)) = drop (nat ?i) nm"
    using i by (simp add: slice_plain)
  then show ?thesis using i s by (intro exI[of _ "nat ?i"]) auto
qed

lemma suffix_of_split:
  assumes "stem \<noteq> []" "ys \<noteq> []" "46 \<notin> set ys"
  shows "suffix (stem @ 46 # ys) = 46 # ys"
proof -
  let ?nm = "stem @ 46 # ys"
  have r: "py_rfind 46 ?nm = int (length stem)" using assms(3) by (rule py_rfind_last)
  have "py_slice ?nm (int (length stem)) (int (length ?nm)) = drop (length stem) ?nm"
    by (simp add: slice_plain)
  then show ?thesis using r assms(1,2) by (simp add: suffix_def Let_def)
qed

lemma lower_dot: "py_lower x = 46 # rest \<Longrightarrow> \<exists>ys. x = 46 # ys \<and> py_lower ys = rest"
  by (cases x) (auto simp: py_lower_def split: if_splits)

lemma lower_no_dot: "46 \<notin> set (py_lower ys) \<Longrightarrow> 46 \<notin> set ys"
  by (auto simp: py_lower_def)

lemma suffix_lower_iff:
  assumes e: "e = CHR ''.'' # ls" "ls \<noteq> []"
    and ls: "\<forall>c\<in>set ls. 97 \<le> (of_char c :: nat) \<and> (of_char c :: nat) \<le> 122"
  shows "py_lower (suffix nm) = ascii e \<longleftrightarrow> has_extension nm e"
proof -
  have low: "\<forall>c\<in>set e. \<not> (65 \<le> (of_char c :: nat) \<and> (of_char c :: nat) \<le> 90)"
    using e ls by auto
  have ae: "ascii e = 46 # ascii ls" using e by (simp add: ascii_def)
  have nodot: "46 \<notin> set (ascii ls)" using ls by (auto simp: ascii_def)
  show ?thesis
  proof
    assume a: "py_lower (suffix nm) = ascii e"
    then have "suffix nm \<noteq> []" using ae by (auto simp: py_lower_def)
    then obtain k where k: "0 < k" "k < length nm" "suffix nm = drop k nm"
      using suffix_drop by blast
    have "length (py_lower (drop k nm)) = length (ascii e)" using a k(3) by simp
    then have len: "length nm - k = length e" by (simp add: py_lower_def ascii_def)
    then have "k = length nm - length e" "length e < length nm" using k by auto
    moreover have "ci_match (drop k nm) e" using a k(3) ci_match_lower[OF low] by simp
    ultimately show "has_extension nm e" by (simp add: has_extension_def)
  next
    assume h: "has_extension nm e"
    let ?k = "length nm - length e"
    have k: "length e < length nm" and m: "ci_match (drop ?k nm) e"
      using h by (simp_all add: has_extension_def)
    have l: "py_lower (drop ?k nm) = 46 # ascii ls" using m ci_match_lower[OF low] ae by simp
    then obtain ys where ys: "drop ?k nm = 46 # ys" "py_lower ys = ascii ls"
      using lower_dot by blast
    have y: "ys \<noteq> []" "46 \<notin> set ys"
      using ys(2) e(2) nodot lower_no_dot[of ys] by (auto simp: ascii_def py_lower_def)
    have "nm = take ?k nm @ 46 # ys" using ys(1) by (metis append_take_drop_id)
    moreover have "take ?k nm \<noteq> []" using k by auto
    ultimately have "suffix nm = 46 # ys" using suffix_of_split[OF _ y] by metis
    then show "py_lower (suffix nm) = ascii e" using ys l ae by simp
  qed
qed

lemma suffix_txt: "py_lower (suffix nm) = ascii ''.txt'' \<longleftrightarrow> has_extension nm ''.txt''"
  by (rule suffix_lower_iff[of _ "''txt''"]) simp_all

lemma suffix_pdf: "py_lower (suffix nm) = ascii ''.pdf'' \<longleftrightarrow> has_extension nm ''.pdf''"
  by (rule suffix_lower_iff[of _ "''pdf''"]) simp_all

lemma suffix_docx: "py_lower (suffix nm) = ascii ''.docx'' \<longleftrightarrow> has_extension nm ''.docx''"
  by (rule suffix_lower_iff[of _ "''docx''"]) simp_all

lemma ext_exclusive:
  "\<not> (has_extension nm ''.txt'' \<and> has_extension nm ''.pdf'')"
  "\<not> (has_extension nm ''.txt'' \<and> has_extension nm ''.docx'')"
  "\<not> (has_extension nm ''.pdf'' \<and> has_extension nm ''.docx'')"
  using suffix_txt[of nm] suffix_pdf[of nm] suffix_docx[of nm]
  by (auto simp: ascii_def)


lemma map_enumerate_index:
  "map (\<lambda>x. g (fst x)) (enumerate n xs) = map g [n..<n + length xs]"
proof -
  have "map g (map fst (enumerate n xs)) = map (\<lambda>x. g (fst x)) (enumerate n xs)"
    by (simp only: map_map comp_def)
  then show ?thesis by (simp only: map_fst_enumerate)
qed

lemma read_pdf_pages_ok:
  assumes "read_pdf p = Inr pgs"
  shows "distinct (map page_no pgs) \<and> list_all (\<lambda>pg. 0 \<le> page_no pg) pgs"
proof -
  obtain ts where ts: "pdf_page_texts p = Inr ts"
    and pgs: "pgs = map (\<lambda>(i, t). \<lparr>page_text = (case t of None \<Rightarrow> [] | Some s \<Rightarrow> s),
                          page_no = int i\<rparr>) (enumerate 0 ts)"
    using assms by (auto simp: read_pdf_def split: sum.splits)
  have "map page_no pgs = map (\<lambda>x. int (fst x)) (enumerate 0 ts)"
    by (simp add: pgs comp_def case_prod_unfold)
  then have m: "map page_no pgs = map int [0..<length ts]"
    using map_enumerate_index[of int 0 ts] by simp
  have "distinct (map int [0..<length ts])" by (simp add: distinct_map inj_on_def)
  moreover have "list_all (\<lambda>pg. 0 \<le> page_no pg) pgs"
    by (simp add: pgs list_all_iff case_prod_unfold)
  ultimately show ?thesis using m by simp
qed

lemma read_pdf_returns: "returns (read_pdf p) = returns (pdf_page_texts p)"
  by (simp add: read_pdf_def returns_def split: sum.splits)

lemma read_docx_returns: "returns (read_docx p) = returns (docx_paragraphs p)"
  by (simp add: read_docx_def returns_def split: sum.splits)

lemma loop_skip:
  assumes "\<not> supported p"
  shows "iter_docs_loop (p # ps) items = iter_docs_loop ps items"
  using assms
  by (simp add: supported_def Let_def suffix_txt suffix_pdf suffix_docx)

lemma loop_txt:
  assumes "is_file p" "has_extension (name p) ''.txt''"
  shows "iter_docs_loop (p # ps) items =
     (case file_text p of
        Inl e \<Rightarrow> Inl e
      | Inr t \<Rightarrow> iter_docs_loop ps (items @
          [\<lparr>filename = name p, filetype = ascii ''text'',
            pages = [\<lparr>page_text = t, page_no = 0\<rparr>]\<rparr>]))"
  using assms by (simp add: Let_def suffix_txt read_txt_def)

lemma loop_pdf:
  assumes "is_file p" "has_extension (name p) ''.pdf''"
  shows "iter_docs_loop (p # ps) items =
     (case read_pdf p of
        Inl e \<Rightarrow> Inl e
      | Inr pgs \<Rightarrow> iter_docs_loop ps (items @
          [\<lparr>filename = name p, filetype = ascii ''pdf'', pages = pgs\<rparr>]))"
  using assms ext_exclusive(1)[of "name p"]
  by (simp add: Let_def suffix_txt suffix_pdf)

lemma loop_docx:
  assumes "is_file p" "has_extension (name p) ''.docx''"
  shows "iter_docs_loop (p # ps) items =
     (case read_docx p of
        Inl e \<Rightarrow> Inl e
      | Inr pgs \<Rightarrow> iter_docs_loop ps (items @
          [\<lparr>filename = name p, filetype = ascii ''docx'', pages = pgs\<rparr>]))"
  using assms ext_exclusive(2,3)[of "name p"]
  by (simp add: Let_def suffix_txt suffix_pdf suffix_docx)

lemma loop_fail:
  assumes "supported p" "\<not> readable p"
  shows "\<exists>e. iter_docs_loop (p # ps) items = Inl e"
proof -
  have f: "is_file p" using assms(1) by (simp add: supported_def)
  consider (ext_txt) "has_extension (name p) ''.txt''"
    | (ext_pdf) "has_extension (name p) ''.pdf''" "\<not> has_extension (name p) ''.txt''"
    | (ext_docx) "has_extension (name p) ''.docx''" "\<not> has_extension (name p) ''.txt''"
        "\<not> has_extension (name p) ''.pdf''"
    using assms(1) by (auto simp: supported_def)
  then show ?thesis
  proof cases
    case ext_txt
    then have "\<not> returns (file_text p)" using assms(2) by (simp add: readable_def)
    then show ?thesis
      by (simp add: loop_txt[OF f ext_txt] returns_def del: iter_docs_loop.simps split: sum.splits)
  next
    case ext_pdf
    then have "\<not> returns (read_pdf p)" using assms(2) by (simp add: readable_def read_pdf_returns)
    then show ?thesis
      by (simp add: loop_pdf[OF f ext_pdf(1)] returns_def del: iter_docs_loop.simps split: sum.splits)
  next
    case ext_docx
    then have "\<not> returns (read_docx p)"
      using assms(2) by (simp add: readable_def read_docx_returns)
    then show ?thesis
      by (simp add: loop_docx[OF f ext_docx(1)] returns_def del: iter_docs_loop.simps split: sum.splits)
  qed
qed

lemma loop_load:
  assumes "supported p" "readable p"
  shows "\<exists>d. filename d = name p \<and> pages_ok d \<and>
           iter_docs_loop (p # ps) items = iter_docs_loop ps (items @ [d])"
proof -
  have f: "is_file p" using assms(1) by (simp add: supported_def)
  consider (ext_txt) "has_extension (name p) ''.txt''"
    | (ext_pdf) "has_extension (name p) ''.pdf''" "\<not> has_extension (name p) ''.txt''"
    | (ext_docx) "has_extension (name p) ''.docx''" "\<not> has_extension (name p) ''.txt''"
        "\<not> has_extension (name p) ''.pdf''"
    using assms(1) by (auto simp: supported_def)
  then show ?thesis
  proof cases
    case ext_txt
    then have "returns (file_text p)" using assms(2) by (simp add: readable_def)
    then obtain t where t: "file_text p = Inr t"
      by (cases "file_text p") (simp_all add: returns_def)
    let ?d = "\<lparr>filename = name p, filetype = ascii ''text'',
                pages = [\<lparr>page_text = t, page_no = 0\<rparr>]\<rparr>"
    have 1: "iter_docs_loop (p # ps) items = iter_docs_loop ps (items @ [?d])"
      by (simp add: loop_txt[OF f ext_txt] t del: iter_docs_loop.simps)
    have 2: "filename ?d = name p" by simp
    have 3: "pages_ok ?d" by (simp add: pages_ok_def)
    show ?thesis by (rule exI[of _ ?d]) (simp only: 1 2 3 simp_thms)
  next
    case ext_pdf
    then have "returns (read_pdf p)" using assms(2) by (simp add: readable_def read_pdf_returns)
    then obtain pgs where t: "read_pdf p = Inr pgs"
      by (cases "read_pdf p") (simp_all add: returns_def)
    let ?d = "\<lparr>filename = name p, filetype = ascii ''pdf'', pages = pgs\<rparr>"
    have 1: "iter_docs_loop (p # ps) items = iter_docs_loop ps (items @ [?d])"
      by (simp add: loop_pdf[OF f ext_pdf(1)] t del: iter_docs_loop.simps)
    have 2: "filename ?d = name p" by simp
    have 3: "pages_ok ?d" using read_pdf_pages_ok[OF t] by (simp add: pages_ok_def)
    show ?thesis by (rule exI[of _ ?d]) (simp only: 1 2 3 simp_thms)
  next
    case ext_docx
    then have "returns (read_docx p)"
      using assms(2) by (simp add: readable_def read_docx_returns)
    then obtain pgs where t: "read_docx p = Inr pgs"
      by (cases "read_docx p") (simp_all add: returns_def)
    let ?d = "\<lparr>filename = name p, filetype = ascii ''docx'', pages = pgs\<rparr>"
    have 1: "iter_docs_loop (p # ps) items = iter_docs_loop ps (items @ [?d])"
      by (simp add: loop_docx[OF f ext_docx(1)] t del: iter_docs_loop.simps)
    have 2: "filename ?d = name p" by simp
    have "\<exists>x. pgs = [\<lparr>page_text = x, page_no = 0\<rparr>]"
      using t by (auto simp: read_docx_def split: sum.splits)
    then have 3: "pages_ok ?d" by (auto simp: pages_ok_def)
    show ?thesis by (rule exI[of _ ?d]) (simp only: 1 2 3 simp_thms)
  qed
qed

lemma iter_docs_loop_ok:
  "list_all readable (filter supported ps) \<Longrightarrow>
     \<exists>docs. iter_docs_loop ps items = Inr (items @ docs) \<and>
        map filename docs = map name (filter supported ps) \<and> list_all pages_ok docs"
proof (induction ps arbitrary: items)
  case Nil
  then show ?case by simp
next
  case (Cons p ps)
  show ?case
  proof (cases "supported p")
    case False
    then show ?thesis using Cons by (simp add: loop_skip del: iter_docs_loop.simps)
  next
    case True
    then have r: "readable p" and rest: "list_all readable (filter supported ps)"
      using Cons.prems by simp_all
    from loop_load[OF True r, of ps items] obtain d where
      d: "filename d = name p" "pages_ok d"
         "iter_docs_loop (p # ps) items = iter_docs_loop ps (items @ [d])" by blast
    from Cons.IH[OF rest, of "items @ [d]"] obtain docs where
      ds: "iter_docs_loop ps (items @ [d]) = Inr ((items @ [d]) @ docs)"
         "map filename docs = map name (filter supported ps)" "list_all pages_ok docs" by blast
    have "iter_docs_loop (p # ps) items = Inr (items @ (d # docs))"
      using d(3) ds(1) by (simp del: iter_docs_loop.simps)
    moreover have "map filename (d # docs) = map name (filter supported (p # ps))"
      using True d(1) ds(2) by simp
    moreover have "list_all pages_ok (d # docs)" using d(2) ds(3) by simp
    ultimately show ?thesis by blast
  qed
qed

lemma iter_docs_loop_fails:
  "\<not> list_all readable (filter supported ps) \<Longrightarrow> \<exists>e. iter_docs_loop ps items = Inl e"
proof (induction ps arbitrary: items)
  case Nil
  then show ?case by simp
next
  case (Cons p ps)
  show ?case
  proof (cases "supported p")
    case False
    then have "\<not> list_all readable (filter supported ps)" using Cons.prems by simp
    from Cons.IH[OF this, of items] show ?thesis using False
      by (simp add: loop_skip del: iter_docs_loop.simps)
  next
    case True
    show ?thesis
    proof (cases "readable p")
      case False
      then show ?thesis by (rule loop_fail[OF True])
    next
      case r: True
      then have n: "\<not> list_all readable (filter supported ps)" using Cons.prems True by simp
      from loop_load[OF True r, of ps items] obtain d where
        d: "iter_docs_loop (p # ps) items = iter_docs_loop ps (items @ [d])" by blast
      from Cons.IH[OF n, of "items @ [d]"] show ?thesis using d
        by (simp del: iter_docs_loop.simps)
    qed
  qed
qed

text \<open>
  C9, as amended. For every directory in which the reader of every regular file with
  extension \<open>.txt\<close>, \<open>.pdf\<close> or \<open>.docx\<close> (in any letter case) returns,
  \<open>iter_docs\<close> returns one document for each such file and for no other entry, in the
  order in which \<open>sorted\<close> puts the paths: the lexicographic order, by code point, of
  the names after the case normalisation of the path flavour (none on POSIX, lower case
  on Windows). If a reader raises on one of these files, the exception leaves
  \<open>iter_docs\<close> and no document is returned.
\<close>

theorem iter_docs_selects:
  "(list_all readable (filter supported docs_dir) \<longrightarrow>
      (\<exists>docs. iter_docs normcase docs_dir = Inr docs \<and>
         map filename docs
           = map name (filter supported (sort_key (\<lambda>p. normcase (name p)) docs_dir)) \<and>
         sorted (map (\<lambda>d. normcase (filename d)) docs) \<and>
         set (map filename docs) = name ` {p \<in> set docs_dir. supported p})) \<and>
   (\<not> list_all readable (filter supported docs_dir) \<longrightarrow>
      (\<exists>e. iter_docs normcase docs_dir = Inl e))"
proof -
  let ?sorted = "sort_key (\<lambda>p. normcase (name p)) docs_dir"
  have same: "list_all readable (filter supported ?sorted)
      \<longleftrightarrow> list_all readable (filter supported docs_dir)"
    by (simp add: list_all_iff)
  have ok: "\<exists>docs. iter_docs normcase docs_dir = Inr docs \<and>
         map filename docs = map name (filter supported ?sorted) \<and>
         sorted (map (\<lambda>d. normcase (filename d)) docs) \<and>
         set (map filename docs) = name ` {p \<in> set docs_dir. supported p}"
    if r: "list_all readable (filter supported docs_dir)"
  proof -
    from iter_docs_loop_ok[of ?sorted "[]"] r same obtain docs where
      d: "iter_docs_loop ?sorted [] = Inr docs" "map filename docs = map name (filter supported ?sorted)"
      by auto
    have "set (map filename docs) = set (map name (filter supported ?sorted))"
      using d(2) by simp
    then have 3: "set (map filename docs) = name ` {p \<in> set docs_dir. supported p}"
      by auto
    have "sorted (map (\<lambda>p. normcase (name p)) ?sorted)" by (rule sorted_sort_key)
    then have "sorted (map (\<lambda>p. normcase (name p)) (filter supported ?sorted))"
      by (rule sorted_filter)
    then have "sorted (map normcase (map name (filter supported ?sorted)))"
      by (simp add: comp_def)
    then have "sorted (map normcase (map filename docs))" using d(2) by simp
    then have 2: "sorted (map (\<lambda>d. normcase (filename d)) docs)" by (simp add: comp_def)
    have "iter_docs normcase docs_dir = Inr docs" using d(1) by (simp add: iter_docs_def)
    then show ?thesis using d(2) 2 3 by blast
  qed
  have bad: "\<exists>e. iter_docs normcase docs_dir = Inl e"
    if "\<not> list_all readable (filter supported docs_dir)"
    using iter_docs_loop_fails[of ?sorted "[]"] that same by (simp add: iter_docs_def)
  show ?thesis using ok bad by blast
qed

lemma sample_docs:
  "iter_docs posix sample_dir =
     Inr [\<lparr>filename = ascii ''a.pdf'', filetype = ascii ''pdf'',
            pages = [\<lparr>page_text = ascii ''x'', page_no = 0\<rparr>, \<lparr>page_text = [], page_no = 1\<rparr>,
                     \<lparr>page_text = ascii ''y'', page_no = 2\<rparr>]\<rparr>,
          \<lparr>filename = ascii ''b.TXT'', filetype = ascii ''text'',
            pages = [\<lparr>page_text = ascii '' hello '', page_no = 0\<rparr>]\<rparr>]"
  by (simp add: iter_docs_def posix_def sample_dir_def ascii_def suffix_def py_slice_def
      py_lower_def Let_def read_pdf_def read_txt_def enumerate_eq_zip upt_rec)

lemma sample_supported:
  "map name (filter supported sample_dir) = [ascii ''b.TXT'', ascii ''a.pdf'']"
  "list_all readable (filter supported sample_dir)"
  by (simp_all add: sample_dir_def supported_def readable_def returns_def has_extension_def
      ascii_def)

theorem iter_docs_selects_witness:
  "list_all readable (filter supported sample_dir) \<and>
   map name (filter supported sample_dir) = [ascii ''b.TXT'', ascii ''a.pdf''] \<and>
   (\<exists>docs. iter_docs posix sample_dir = Inr docs \<and>
      map filename docs = [ascii ''a.pdf'', ascii ''b.TXT''] \<and>
      sorted (map (\<lambda>d. posix (filename d)) docs)) \<and>
   \<not> list_all readable (filter supported corrupt_dir) \<and>
   iter_docs posix corrupt_dir = Inl ReaderError"
proof -
  have c: "\<not> list_all readable (filter supported corrupt_dir)"
    by (simp add: corrupt_dir_def supported_def readable_def returns_def has_extension_def
        ascii_def)
  have e: "iter_docs posix corrupt_dir = Inl ReaderError"
    by (simp add: iter_docs_def posix_def corrupt_dir_def ascii_def suffix_def py_slice_def
        py_lower_def Let_def read_pdf_def)
  show ?thesis
    using iter_docs_selects[of sample_dir posix] iter_docs_selects[of corrupt_dir posix]
      sample_supported sample_docs c e
    by auto
qed

text \<open>
  As stated, for every directory and in the order of the filenames, the property fails:
  a directory whose one PDF cannot be parsed gives no document, the exception leaves
  \<open>iter_docs\<close>; and with the case normalisation of Windows the file \<open>a.txt\<close> comes
  before \<open>B.txt\<close>, which is not the order of the names by code point.
\<close>

theorem iter_docs_unreadable_counterexample:
  "map name (filter supported corrupt_dir) = [ascii ''a.pdf''] \<and>
   iter_docs posix corrupt_dir = Inl ReaderError \<and>
   iter_docs windows mixed_case_dir =
     Inr [\<lparr>filename = ascii ''a.txt'', filetype = ascii ''text'',
            pages = [\<lparr>page_text = ascii ''a'', page_no = 0\<rparr>]\<rparr>,
          \<lparr>filename = ascii ''B.txt'', filetype = ascii ''text'',
            pages = [\<lparr>page_text = ascii ''b'', page_no = 0\<rparr>]\<rparr>] \<and>
   \<not> sorted [ascii ''a.txt'', ascii ''B.txt'']"
  by (simp add: iter_docs_def posix_def windows_def corrupt_dir_def mixed_case_dir_def
      supported_def has_extension_def ascii_def suffix_def py_slice_def py_lower_def Let_def
      read_pdf_def read_txt_def)

section \<open>Properties of the index builder\<close>

lemma digits_nonempty: "digits n \<noteq> []"
  by (subst digits.simps) simp

lemma digits_are_digits: "\<forall>c\<in>set (digits n). is_digit c"
proof (induction n rule: digits.induct)
  case (1 n)
  show ?case
  proof (cases "n < 10")
    case True
    then show ?thesis by (subst digits.simps) (simp add: is_digit_def)
  next
    case False
    have "n mod 10 < 10" by simp
    then have "is_digit (48 + n mod 10)" unfolding is_digit_def by linarith
    then show ?thesis using 1 False by (subst digits.simps) simp
  qed
qed

lemma digits_value_digits: "digits_value (digits n) = n"
proof (induction n rule: digits.induct)
  case (1 n)
  show ?case
  proof (cases "n < 10")
    case True
    then show ?thesis by (subst digits.simps) (simp add: digits_value_def)
  next
    case False
    then have "digits_value (digits (n div 10)) = n div 10" using 1 by simp
    then show ?thesis using False
      by (subst digits.simps) (simp add: digits_value_def)
  qed
qed

lemma digits_inj: "digits m = digits n \<Longrightarrow> m = n"
  by (metis digits_value_digits)

lemma py_str_int_nonneg: "0 \<le> i \<Longrightarrow> py_str_int i = digits (nat i)"
  by (simp add: py_str_int_def)

lemma takeWhile_upto_mark:
  "\<forall>x\<in>set as. P x \<Longrightarrow> \<not> P c \<Longrightarrow> takeWhile P (as @ c # bs) = as"
  by (induction as) auto

lemma split_at_mark:
  assumes "xs @ c # ds = xs' @ c # ds'"
    and "\<forall>x\<in>set ds. is_digit x" "\<forall>x\<in>set ds'. is_digit x" "\<not> is_digit c"
  shows "xs = xs' \<and> ds = ds'"
proof -
  have "rev (xs @ c # ds) = rev (xs' @ c # ds')" using assms(1) by simp
  then have e: "rev ds @ c # rev xs = rev ds' @ c # rev xs'" by simp
  have "takeWhile is_digit (rev ds @ c # rev xs) = rev ds"
    using assms(2,4) by (intro takeWhile_upto_mark) auto
  moreover have "takeWhile is_digit (rev ds' @ c # rev xs') = rev ds'"
    using assms(3,4) by (intro takeWhile_upto_mark) auto
  ultimately have "rev ds = rev ds'" using e by simp
  then have "ds = ds'" by simp
  then show ?thesis using assms(1) by simp
qed

lemma chunk_id_inj:
  assumes "chunk_id f p i = chunk_id f' p' i'" "0 \<le> p" "0 \<le> i" "0 \<le> p'" "0 \<le> i'"
  shows "f = f' \<and> p = p' \<and> i = i'"
proof -
  have e: "(f @ [124, 112] @ digits (nat p) @ [124]) @ 99 # digits (nat i)
         = (f' @ [124, 112] @ digits (nat p') @ [124]) @ 99 # digits (nat i')"
    using assms by (simp add: chunk_id_def py_str_int_nonneg ascii_def)
  have nd: "\<not> is_digit 99" "\<not> is_digit 112" by (simp_all add: is_digit_def)
  from split_at_mark[OF e] digits_are_digits nd(1)
  have 1: "f @ [124, 112] @ digits (nat p) @ [124] = f' @ [124, 112] @ digits (nat p') @ [124]"
    and 2: "digits (nat i) = digits (nat i')" by auto
  have "(f @ [124, 112] @ digits (nat p)) @ [124] = (f' @ [124, 112] @ digits (nat p')) @ [124]"
    using 1 by simp
  then have "f @ [124, 112] @ digits (nat p) = f' @ [124, 112] @ digits (nat p')"
    by (simp only: append_same_eq)
  then have "(f @ [124]) @ 112 # digits (nat p) = (f' @ [124]) @ 112 # digits (nat p')"
    by simp
  from split_at_mark[OF this] digits_are_digits nd(2)
  have 3: "f @ [124] = f' @ [124]" and 4: "digits (nat p) = digits (nat p')" by auto
  have "nat i = nat i'" "nat p = nat p'" using 2 4 digits_inj by auto
  then have "i = i'" "p = p'" using assms(2-5) by linarith+
  then show ?thesis using 3 by simp
qed

lemma fold_add_chunk_ids:
  "ids (fold (add_chunk d pg) xs st)
     = ids st @ map (\<lambda>x. key_id (filename d, page_no pg, int (fst x))) xs"
  by (induction xs arbitrary: st) (auto simp: add_chunk_def key_id_def split: prod.splits)

lemma enumerate_keys:
  "map (\<lambda>x. key_id (f, p, int (fst x))) (enumerate 0 chunks)
     = map key_id (map (\<lambda>i. (f, p, int i)) [0..<length chunks])"
  using map_enumerate_index[of "\<lambda>i. key_id (f, p, int i)" 0 chunks]
  by (simp add: comp_def)

lemma page_loop_ids:
  assumes "distinct (map page_no pgs)"
  shows "\<exists>st' keys. page_loop d pgs st = Some st' \<and> ids st' = ids st @ map key_id keys \<and>
           distinct keys \<and>
           (\<forall>k\<in>set keys. fst k = filename d \<and> fst (snd k) \<in> page_no ` set pgs \<and> 0 \<le> snd (snd k))"
  using assms
proof (induction pgs arbitrary: st)
  case Nil
  have "page_loop d [] st = Some st \<and> ids st = ids st @ map key_id [] \<and> distinct ([]::(pystr \<times> int \<times> int) list) \<and>
     (\<forall>k\<in>set ([]::(pystr \<times> int \<times> int) list). fst k = filename d \<and> fst (snd k) \<in> page_no ` set [] \<and> 0 \<le> snd (snd k))"
    by simp
  then show ?case by blast
next
  case (Cons pg pgs)
  obtain chunks where c: "chunk_text (page_text pg) CHUNK_SIZE CHUNK_OVERLAP = Some chunks"
    using chunk_text_default_returns by blast
  let ?st1 = "fold (add_chunk d pg) (enumerate 0 chunks) st"
  let ?k0 = "map (\<lambda>i. (filename d, page_no pg, int i)) [0..<length chunks]"
  have i1: "ids ?st1 = ids st @ map key_id ?k0"
    by (simp only: fold_add_chunk_ids enumerate_keys)
  have dp: "distinct (map page_no pgs)" "page_no pg \<notin> page_no ` set pgs"
    using Cons.prems by auto
  from Cons.IH[OF dp(1), of ?st1] obtain st' keys where IH:
    "page_loop d pgs ?st1 = Some st'" "ids st' = ids ?st1 @ map key_id keys" "distinct keys"
    "\<forall>k\<in>set keys. fst k = filename d \<and> fst (snd k) \<in> page_no ` set pgs \<and> 0 \<le> snd (snd k)"
    by blast
  have 1: "page_loop d (pg # pgs) st = Some st'" using c IH(1) by simp
  have 2: "ids st' = ids st @ map key_id (?k0 @ keys)" using IH(2) i1 by simp
  have d0: "distinct ?k0" by (simp add: distinct_map inj_on_def)
  have disj: "set ?k0 \<inter> set keys = {}" using IH(4) dp(2) by fastforce
  have 3: "distinct (?k0 @ keys)" using d0 IH(3) disj by simp
  have 4: "\<forall>k\<in>set (?k0 @ keys). fst k = filename d \<and> fst (snd k) \<in> page_no ` set (pg # pgs) \<and> 0 \<le> snd (snd k)"
    using IH(4) by auto
  show ?case using 1 2 3 4 by blast
qed

lemma doc_loop_ids:
  assumes "distinct (map filename ds)" "list_all pages_ok ds"
  shows "\<exists>st' keys. doc_loop ds st = Some st' \<and> ids st' = ids st @ map key_id keys \<and>
           distinct keys \<and>
           (\<forall>k\<in>set keys. fst k \<in> filename ` set ds \<and> 0 \<le> fst (snd k) \<and> 0 \<le> snd (snd k))"
  using assms
proof (induction ds arbitrary: st)
  case Nil
  have "doc_loop [] st = Some st \<and> ids st = ids st @ map key_id [] \<and> distinct ([]::(pystr \<times> int \<times> int) list) \<and>
     (\<forall>k\<in>set ([]::(pystr \<times> int \<times> int) list). fst k \<in> filename ` set [] \<and> 0 \<le> fst (snd k) \<and> 0 \<le> snd (snd k))"
    by simp
  then show ?case by blast
next
  case (Cons d ds)
  have ok: "distinct (map page_no (pages d))" "\<forall>pg\<in>set (pages d). 0 \<le> page_no pg"
    using Cons.prems(2) by (simp_all add: pages_ok_def list_all_iff)
  from page_loop_ids[OF ok(1), of d st] obtain st1 k0 where P:
    "page_loop d (pages d) st = Some st1" "ids st1 = ids st @ map key_id k0" "distinct k0"
    "\<forall>k\<in>set k0. fst k = filename d \<and> fst (snd k) \<in> page_no ` set (pages d) \<and> 0 \<le> snd (snd k)"
    by blast
  have pr: "distinct (map filename ds)" "list_all pages_ok ds" "filename d \<notin> filename ` set ds"
    using Cons.prems by auto
  from Cons.IH[OF pr(1,2), of st1] obtain st' keys where IH:
    "doc_loop ds st1 = Some st'" "ids st' = ids st1 @ map key_id keys" "distinct keys"
    "\<forall>k\<in>set keys. fst k \<in> filename ` set ds \<and> 0 \<le> fst (snd k) \<and> 0 \<le> snd (snd k)"
    by blast
  have 1: "doc_loop (d # ds) st = Some st'" using P(1) IH(1) by simp
  have 2: "ids st' = ids st @ map key_id (k0 @ keys)" using P(2) IH(2) by simp
  have disj: "set k0 \<inter> set keys = {}" using P(4) IH(4) pr(3) by fastforce
  have 3: "distinct (k0 @ keys)" using P(3) IH(3) disj by simp
  have 4: "\<forall>k\<in>set (k0 @ keys). fst k \<in> filename ` set (d # ds) \<and> 0 \<le> fst (snd k) \<and> 0 \<le> snd (snd k)"
    using P(4) IH(4) ok(2) by auto
  show ?case using 1 2 3 4 by blast
qed

lemma key_id_inj_on:
  assumes "\<forall>k\<in>set keys. 0 \<le> fst (snd k) \<and> 0 \<le> snd (snd k)"
  shows "inj_on key_id (set keys)"
proof (rule inj_onI)
  fix a b assume ab: "a \<in> set keys" "b \<in> set keys" "key_id a = key_id b"
  then have "fst a = fst b \<and> fst (snd a) = fst (snd b) \<and> snd (snd a) = snd (snd b)"
    using assms by (intro chunk_id_inj) (auto simp: key_id_def)
  then show "a = b" by (simp add: prod_eq_iff)
qed

lemma iter_docs_pages_ok:
  assumes "iter_docs normcase docs_dir = Inr docs"
  shows "list_all pages_ok docs"
proof -
  let ?sorted = "sort_key (\<lambda>p. normcase (name p)) docs_dir"
  have l: "iter_docs_loop ?sorted [] = Inr docs" using assms by (simp add: iter_docs_def)
  have "list_all readable (filter supported ?sorted)"
  proof (rule ccontr)
    assume "\<not> list_all readable (filter supported ?sorted)"
    from iter_docs_loop_fails[OF this, of "[]"] show False using l by auto
  qed
  from iter_docs_loop_ok[OF this, of "[]"] show ?thesis using l by auto
qed

lemma sample_chunks:
  "chunk_text (ascii ''x'') CHUNK_SIZE CHUNK_OVERLAP = Some [ascii ''x'']"
  "chunk_text [] CHUNK_SIZE CHUNK_OVERLAP = Some []"
  "chunk_text (ascii ''y'') CHUNK_SIZE CHUNK_OVERLAP = Some [ascii ''y'']"
  "chunk_text (ascii '' hello '') CHUNK_SIZE CHUNK_OVERLAP = Some [ascii ''hello'']"
  by (simp_all add: chunk_text_def chunk_run_def normalise_def py_strip_def py_isspace_def
      chunk_loop.simps py_slice_def Let_def ascii_def CHUNK_SIZE_def CHUNK_OVERLAP_def)

lemma sample_ids:
  "\<exists>st. rebuild_index posix sample_dir = Some (Inr (st, 3, 2)) \<and>
     ids st = [ascii ''a.pdf|p0|c0'', ascii ''a.pdf|p2|c0'', ascii ''b.TXT|p0|c0'']"
  apply (simp add: rebuild_index_def sample_docs sample_chunks add_chunk_def Let_def)
  apply (simp add: chunk_id_def py_str_int_def digits.simps ascii_def)
  done

text \<open>
  C4. For every directory that \<open>iter_docs\<close> loads into documents with pairwise distinct
  filenames, \<open>rebuild_index\<close> returns, and the list of chunk ids it builds, each
  \<open>filename|p<page>|c<chunk_index>\<close>, has no duplicates.
\<close>

theorem rebuild_index_ids_distinct:
  assumes "iter_docs normcase docs_dir = Inr docs" "distinct (map filename docs)"
  shows "\<exists>st. rebuild_index normcase docs_dir = Some (Inr (st, length (ids st), length docs)) \<and>
           distinct (ids st)"
proof -
  from doc_loop_ids[OF assms(2) iter_docs_pages_ok[OF assms(1)],
      of "\<lparr>ids = [], documents = [], metadatas = []\<rparr>"]
  obtain st keys where L:
    "doc_loop docs \<lparr>ids = [], documents = [], metadatas = []\<rparr> = Some st"
    "ids st = map key_id keys" "distinct keys"
    "\<forall>k\<in>set keys. fst k \<in> filename ` set docs \<and> 0 \<le> fst (snd k) \<and> 0 \<le> snd (snd k)"
    by auto
  have "inj_on key_id (set keys)" using L(4) by (intro key_id_inj_on) auto
  then have "distinct (ids st)" using L(2,3) by (simp add: distinct_map)
  moreover have "rebuild_index normcase docs_dir = Some (Inr (st, length (ids st), length docs))"
    using L(1) assms(1) by (simp add: rebuild_index_def)
  ultimately show ?thesis by blast
qed

theorem rebuild_index_ids_distinct_witness:
  "iter_docs posix sample_dir =
     Inr [\<lparr>filename = ascii ''a.pdf'', filetype = ascii ''pdf'',
            pages = [\<lparr>page_text = ascii ''x'', page_no = 0\<rparr>, \<lparr>page_text = [], page_no = 1\<rparr>,
                     \<lparr>page_text = ascii ''y'', page_no = 2\<rparr>]\<rparr>,
          \<lparr>filename = ascii ''b.TXT'', filetype = ascii ''text'',
            pages = [\<lparr>page_text = ascii '' hello '', page_no = 0\<rparr>]\<rparr>] \<and>
   distinct [ascii ''a.pdf'', ascii ''b.TXT''] \<and>
   (\<exists>st. rebuild_index posix sample_dir = Some (Inr (st, 3, 2)) \<and>
      ids st = [ascii ''a.pdf|p0|c0'', ascii ''a.pdf|p2|c0'', ascii ''b.TXT|p0|c0''] \<and>
      distinct (ids st))"
proof -
  have d: "distinct (map filename
     [\<lparr>filename = ascii ''a.pdf'', filetype = ascii ''pdf'',
            pages = [\<lparr>page_text = ascii ''x'', page_no = 0\<rparr>, \<lparr>page_text = [], page_no = 1\<rparr>,
                     \<lparr>page_text = ascii ''y'', page_no = 2\<rparr>]\<rparr>,
          \<lparr>filename = ascii ''b.TXT'', filetype = ascii ''text'',
            pages = [\<lparr>page_text = ascii '' hello '', page_no = 0\<rparr>]\<rparr>])"
    by (simp add: ascii_def)
  have d': "distinct [ascii ''a.pdf'', ascii ''b.TXT'']" by (simp add: ascii_def)
  from rebuild_index_ids_distinct[OF sample_docs d] sample_ids
  show ?thesis using sample_docs d' by auto
qed

end
